theory Spec2Isabelle
  imports Complex_Main
begin

unbundle bit_operations_syntax

section \<open>The JSON parser library of the export extractor (json\_parser.c)\<close>

text \<open>
  A shallow embedding of \<^verbatim>\<open>src/anthropic_export_extractor/json_parser.c\<close>.
  Every C function that reads or moves the cursor takes the \<open>Parser\<close> struct and returns
  it updated; a \<open>JsonValue*\<close> result is an \<open>option\<close> (\<open>None\<close> is \<open>NULL\<close>).
  Allocation (\<open>calloc\<close>, \<open>malloc\<close>, \<open>realloc\<close>) is taken to succeed, so the
  \<open>NULL\<close> returns that only follow a failed allocation have no branch here, and the
  capacity of a container, which only drives \<open>realloc\<close>, is not kept: the count of a
  container is the length of its list.
\<close>

subsection \<open>Constants\<close>

definition MAX_DEPTH :: int where "MAX_DEPTH = 128"
definition MAX_STRING_SIZE :: nat where "MAX_STRING_SIZE = 2097152"
definition MAX_NUMBER_SIZE :: nat where "MAX_NUMBER_SIZE = 64"

text \<open>\<open>ERANGE\<close> of \<open>errno.h\<close> (its value on Linux).\<close>

definition ERANGE :: int where "ERANGE = 34"

abbreviation DQUOTE :: char where "DQUOTE \<equiv> CHR 0x22"
abbreviation BACKSLASH :: char where "BACKSLASH \<equiv> CHR 0x5C"

subsection \<open>The value tree\<close>

text \<open>
  Modelled from the spec: \<open>json_parser.h\<close>, which declares \<open>JsonType\<close>, \<open>JsonValue\<close>
  and \<open>JsonPair\<close>, is not among the sources. The tagged union follows section 3 of the
  specification and the member accesses of json\_parser.c (\<open>data.boolean\<close>,
  \<open>data.number\<close>, \<open>data.string\<close>, \<open>data.array.items/count\<close>,
  \<open>data.object.pairs/count\<close> with \<open>key\<close> and \<open>value\<close>).

  A \<open>double\<close> is represented by the rational number it stands for: the rounding of
  \<open>strtod\<close> to binary64 and the sign of a zero are outside this model. A string is
  the list of bytes that the parser wrote into its buffer before the terminating NUL;
  C readers of it (\<open>strcmp\<close>, \<open>%s\<close>) see the bytes up to the first NUL, which is
  \<open>c_str\<close> below.
\<close>

datatype json_value =
    JSON_NULL
  | JSON_BOOLEAN bool
  | JSON_NUMBER rat
  | JSON_STRING string
  | JSON_ARRAY "json_value list"
  | JSON_OBJECT "(string \<times> json_value) list"

definition c_str :: "string \<Rightarrow> string" where
  "c_str s = takeWhile (\<lambda>c. c \<noteq> CHR 0x00) s"

definition strlen :: "string \<Rightarrow> nat" where
  "strlen s = length (c_str s)"

subsection \<open>Parser state and diagnostics\<close>

text \<open>
  The \<open>snprintf\<close> calls that fill \<open>parser->error\<close> use one format string per failure,
  each ending in the line and the column of the cursor; a message is kept as the format
  (with its character arguments) and the two numbers.
\<close>

datatype error_kind =
    UnexpectedEndOfInput
  | ExpectedChar char char
  | InvalidNullValue
  | InvalidBooleanValue
  | InvalidNumber
  | LeadingZerosNotAllowed
  | NumberTooLarge
  | InvalidDecimalNumber
  | InvalidExponent
  | InvalidNumberFormat
  | StringTooLong
  | UnterminatedString
  | InvalidUnicodeEscape
  | InvalidHexDigit
  | InvalidEscapeSequence
  | InvalidControlCharacterInString
  | MaxNestingDepthExceeded
  | ExpectedStringKey
  | UnexpectedCharacter char
  | UnexpectedDataAfterJSON

datatype error_msg = ErrorAt error_kind int int

fun kind_of :: "error_msg \<Rightarrow> error_kind" where
  "kind_of (ErrorAt k l c) = k"

text \<open>
  The \<open>Parser\<close> struct. \<open>error\<close> is the message buffer (\<open>None\<close>: still empty).
  \<open>line\<close>, \<open>column\<close> and \<open>depth\<close> are C \<open>int\<close>s, taken unbounded here: they move by
  one per byte read, so they stay far below \<open>INT_MAX\<close> for any buffer under 2 GiB.
  The last field is not a member of the struct: it is the \<open>errno\<close> of the calling
  thread, which \<open>parse_number\<close> reads and \<open>strtod\<close> may set, carried along with the
  parser state so that this dependency is explicit.
\<close>

record parser =
  input :: string
  position :: nat
  length_p :: nat
  line :: int
  column :: int
  error :: "error_msg option"
  depth :: int
  errno :: int

definition cur :: "parser \<Rightarrow> char" where
  "cur p = input p ! position p"

definition set_error :: "error_kind \<Rightarrow> parser \<Rightarrow> parser" where
  "set_error k p = p\<lparr>error := Some (ErrorAt k (line p) (column p))\<rparr>"

definition advance :: "nat \<Rightarrow> parser \<Rightarrow> parser" where
  "advance n p = p\<lparr>position := position p + n, column := column p + int n\<rparr>"

subsection \<open>Scanner\<close>

definition is_space :: "char \<Rightarrow> bool" where
  "is_space c = (c = CHR '' '' \<or> c = CHR 0x09 \<or> c = CHR 0x0D \<or> c = CHR 0x0A)"

function skip_whitespace :: "parser \<Rightarrow> parser" where
  "skip_whitespace p =
     (if position p < length_p p then
        (let c = cur p in
         if is_space c then
           skip_whitespace
             ((if c = CHR 0x0A then p\<lparr>line := line p + 1, column := 0\<rparr>
               else p\<lparr>column := column p + 1\<rparr>)\<lparr>position := position p + 1\<rparr>)
         else p)
      else p)"
  by pat_completeness auto
termination
  by (relation "measure (\<lambda>p. length_p p - position p)") auto

declare skip_whitespace.simps [simp del]

definition peek_char :: "parser \<Rightarrow> char \<Rightarrow> bool \<times> parser" where
  "peek_char p0 expected =
     (let p = skip_whitespace p0 in
      if position p \<ge> length_p p then (False, p)
      else (cur p = expected, p))"

definition consume_char :: "parser \<Rightarrow> char \<Rightarrow> bool \<times> parser" where
  "consume_char p0 expected =
     (let p = skip_whitespace p0 in
      if position p \<ge> length_p p then (False, set_error UnexpectedEndOfInput p)
      else if cur p \<noteq> expected then (False, set_error (ExpectedChar expected (cur p)) p)
      else (True, advance 1 p))"

subsection \<open>Literals\<close>

definition strncmp_at :: "parser \<Rightarrow> string \<Rightarrow> bool" where
  "strncmp_at p lit = (take (length lit) (drop (position p) (input p)) = lit)"

definition parse_null :: "parser \<Rightarrow> json_value option \<times> parser" where
  "parse_null p =
     (if position p + 4 \<le> length_p p \<and> strncmp_at p ''null'' then (Some JSON_NULL, advance 4 p)
      else (None, set_error InvalidNullValue p))"

definition parse_boolean :: "parser \<Rightarrow> json_value option \<times> parser" where
  "parse_boolean p =
     (if position p + 4 \<le> length_p p \<and> strncmp_at p ''true''
        then (Some (JSON_BOOLEAN True), advance 4 p)
      else if position p + 5 \<le> length_p p \<and> strncmp_at p ''false''
        then (Some (JSON_BOOLEAN False), advance 5 p)
      else (None, set_error InvalidBooleanValue p))"

subsection \<open>Numbers\<close>

definition isdigit :: "char \<Rightarrow> bool" where
  "isdigit c = (48 \<le> (of_char c :: nat) \<and> (of_char c :: nat) \<le> 57)"

text \<open>
  \<open>strtod\<close> belongs to the C library, not to the repository. This is its behaviour on
  the decimal subject sequences that the scanner below can hand over: the value of the
  longest prefix of the form sign, digits, optional fraction, optional exponent (the
  exact value, not its binary64 rounding), the unread rest of the buffer (\<open>endptr\<close>),
  and whether the conversion reports a range error (overflow beyond the largest double,
  or a non-zero value below the smallest normal double), in which case it stores
  \<open>ERANGE\<close> in \<open>errno\<close>. Without a range error \<open>strtod\<close> leaves \<open>errno\<close> as it was.
\<close>

definition decimal :: "string \<Rightarrow> nat" where
  "decimal ds = foldl (\<lambda>a c. 10 * a + (of_char c - 48)) 0 ds"

definition pow10 :: "int \<Rightarrow> rat" where
  "pow10 k = (if 0 \<le> k then 10 ^ nat k else 1 / 10 ^ nat (- k))"

definition range_error :: "rat \<Rightarrow> bool" where
  "range_error v = ((v \<noteq> 0 \<and> \<bar>v\<bar> < 1 / 2 ^ 1022) \<or> 2 ^ 1024 - 2 ^ 970 \<le> \<bar>v\<bar>)"

definition strtod_sign :: "string \<Rightarrow> bool \<times> string" where
  "strtod_sign s = (if s \<noteq> [] \<and> hd s = CHR ''-'' then (True, tl s) else (False, s))"

definition strtod_fraction :: "string \<Rightarrow> string \<times> string" where
  "strtod_fraction r =
     (if r \<noteq> [] \<and> hd r = CHR ''.'' then (takeWhile isdigit (tl r), dropWhile isdigit (tl r))
      else ([], r))"

definition strtod_exponent :: "string \<Rightarrow> int \<times> string" where
  "strtod_exponent r =
     (if r \<noteq> [] \<and> (hd r = CHR ''e'' \<or> hd r = CHR ''E'') then
        (case strtod_sign (if tl r \<noteq> [] \<and> hd (tl r) = CHR ''+'' then tl (tl r) else tl r) of
           (neg, u) \<Rightarrow>
             if takeWhile isdigit u = [] then (0, r)
             else ((if neg then - int (decimal (takeWhile isdigit u))
                    else int (decimal (takeWhile isdigit u))), dropWhile isdigit u))
      else (0, r))"

definition strtod :: "string \<Rightarrow> rat \<times> string \<times> bool" where
  "strtod s =
     (case strtod_sign s of
        (neg, s1) \<Rightarrow>
          (case strtod_fraction (dropWhile isdigit s1) of
             (fp, r2) \<Rightarrow>
               (case strtod_exponent r2 of
                  (ex, rest) \<Rightarrow>
                    (let m = of_nat (decimal (takeWhile isdigit s1 @ fp)) * pow10 (ex - int (length fp))
                     in ((if neg then - m else m), rest, range_error m)))))"

text \<open>
  The local \<open>buffer\<close> of \<open>parse_number\<close> is only ever written at \<open>buffer_pos\<close>, which
  then moves up by one, so it is the list of the bytes written so far: \<open>buffer_pos\<close> is
  its length and a write goes to the index \<open>length buf\<close>. The list has no bound of its
  own; whether a write stays inside \<open>char buffer[MAX_NUMBER_SIZE]\<close> is read off its
  length.
\<close>

text \<open>The three copies of the digit loop (\<open>while (... isdigit(...))\<close>).\<close>

function number_digits :: "string \<Rightarrow> parser \<Rightarrow> bool \<times> string \<times> parser" where
  "number_digits buf p =
     (if position p < length_p p \<and> isdigit (cur p) then
        (if length buf \<ge> MAX_NUMBER_SIZE - 1 then (False, buf, set_error NumberTooLarge p)
         else number_digits (buf @ [cur p]) (advance 1 p))
      else (True, buf, p))"
  by pat_completeness auto
termination
  by (relation "measure (\<lambda>(buf, p). length_p p - position p)") (auto simp: advance_def)

declare number_digits.simps [simp del]

text \<open>Sign and integer part.\<close>

definition number_int :: "parser \<Rightarrow> bool \<times> string \<times> parser" where
  "number_int p0 =
     (let (buf, p) = (if cur p0 = CHR ''-'' then ([cur p0], advance 1 p0) else ([], p0)) in
      if position p \<ge> length_p p \<or> \<not> isdigit (cur p) then (False, buf, set_error InvalidNumber p)
      else if cur p = CHR ''0'' then
        (let buf = buf @ [cur p]; p = advance 1 p in
         if position p < length_p p \<and> isdigit (cur p)
           then (False, buf, set_error LeadingZerosNotAllowed p)
         else (True, buf, p))
      else number_digits buf p)"

text \<open>Optional fraction.\<close>

definition number_frac :: "string \<Rightarrow> parser \<Rightarrow> bool \<times> string \<times> parser" where
  "number_frac buf0 p0 =
     (if position p0 < length_p p0 \<and> cur p0 = CHR ''.'' then
        (let buf = buf0 @ [cur p0]; p = advance 1 p0 in
         if position p \<ge> length_p p \<or> \<not> isdigit (cur p)
           then (False, buf, set_error InvalidDecimalNumber p)
         else number_digits buf p)
      else (True, buf0, p0))"

text \<open>Optional exponent.\<close>

definition number_exp :: "string \<Rightarrow> parser \<Rightarrow> bool \<times> string \<times> parser" where
  "number_exp buf0 p0 =
     (if position p0 < length_p p0 \<and> (cur p0 = CHR ''e'' \<or> cur p0 = CHR ''E'') then
        (let buf1 = buf0 @ [cur p0]; p1 = advance 1 p0;
             (buf, p) = (if position p1 < length_p p1 \<and> (cur p1 = CHR ''+'' \<or> cur p1 = CHR ''-'')
                         then (buf1 @ [cur p1], advance 1 p1) else (buf1, p1)) in
         if position p \<ge> length_p p \<or> \<not> isdigit (cur p)
           then (False, buf, set_error InvalidExponent p)
         else number_digits buf p)
      else (True, buf0, p0))"

text \<open>
  The scan of \<open>parse_number\<close> up to \<open>buffer[buffer_pos] = '\0'\<close>: whether it got there,
  the bytes written into \<open>buffer\<close>, and the parser.
\<close>

definition number_token :: "parser \<Rightarrow> bool \<times> string \<times> parser" where
  "number_token p0 =
     (case number_int p0 of
        (False, buf, p) \<Rightarrow> (False, buf, p)
      | (True, buf, p) \<Rightarrow>
          (case number_frac buf p of
             (False, buf, p) \<Rightarrow> (False, buf, p)
           | (True, buf, p) \<Rightarrow> number_exp buf p))"

definition parse_number :: "parser \<Rightarrow> json_value option \<times> parser" where
  "parse_number p0 =
     (case number_token p0 of
        (False, buf, p) \<Rightarrow> (None, p)
      | (True, buf, p1) \<Rightarrow>
          (let (v, rest, range) = strtod buf;
               p = (if range then p1\<lparr>errno := ERANGE\<rparr> else p1) in
           if rest \<noteq> [] \<or> errno p = ERANGE then (None, set_error InvalidNumberFormat p)
           else (Some (JSON_NUMBER v), p)))"

subsection \<open>Strings\<close>

definition parse_hex_digit :: "char \<Rightarrow> int" where
  "parse_hex_digit c =
     (let n = (of_char c :: int) in
      if of_char (CHR ''0'') \<le> n \<and> n \<le> of_char (CHR ''9'') then n - of_char (CHR ''0'')
      else if of_char (CHR ''a'') \<le> n \<and> n \<le> of_char (CHR ''f'') then n - of_char (CHR ''a'') + 10
      else if of_char (CHR ''A'') \<le> n \<and> n \<le> of_char (CHR ''F'') then n - of_char (CHR ''A'') + 10
      else - 1)"

text \<open>The \<open>for (int i = 0; i < 4; i++)\<close> loop of the \<open>'u'\<close> case; the count is \<open>4 - i\<close>.\<close>

fun hex_digits :: "nat \<Rightarrow> int \<Rightarrow> parser \<Rightarrow> int option \<times> parser" where
  "hex_digits 0 codepoint p = (Some codepoint, p)"
| "hex_digits (Suc n) codepoint p =
     (if position p \<ge> length_p p then (None, set_error InvalidUnicodeEscape p)
      else (let digit = parse_hex_digit (cur p) in
            if digit < 0 then (None, set_error InvalidHexDigit p)
            else hex_digits n (push_bit 4 codepoint OR digit) (advance 1 p)))"

text \<open>The bytes stored for a code point; an \<open>int\<close> assigned to a \<open>char\<close> keeps its low byte.\<close>

definition utf8_encode :: "int \<Rightarrow> string" where
  "utf8_encode codepoint =
     (if codepoint < 0x80 then [char_of codepoint]
      else if codepoint < 0x800 then
        [char_of (0xC0 OR drop_bit 6 codepoint), char_of (0x80 OR (codepoint AND 0x3F))]
      else
        [char_of (0xE0 OR drop_bit 12 codepoint),
         char_of (0x80 OR (drop_bit 6 codepoint AND 0x3F)),
         char_of (0x80 OR (codepoint AND 0x3F))])"

definition retreat :: "parser \<Rightarrow> parser" where
  "retreat p = p\<lparr>position := position p - 1, column := column p - 1\<rparr>"

text \<open>
  The \<open>switch\<close> on the byte after a backslash. On success the cursor is left on the last
  byte of the escape, as in the source, where the increment after the \<open>switch\<close> steps
  over it.
\<close>

definition escape :: "string \<Rightarrow> parser \<Rightarrow> string option \<times> parser" where
  "escape buf p =
     (let c = cur p in
      if c = DQUOTE then (Some (buf @ [DQUOTE]), p)
      else if c = BACKSLASH then (Some (buf @ [BACKSLASH]), p)
      else if c = CHR ''/'' then (Some (buf @ [CHR ''/'']), p)
      else if c = CHR ''b'' then (Some (buf @ [CHR 0x08]), p)
      else if c = CHR ''f'' then (Some (buf @ [CHR 0x0C]), p)
      else if c = CHR ''n'' then (Some (buf @ [CHR 0x0A]), p)
      else if c = CHR ''r'' then (Some (buf @ [CHR 0x0D]), p)
      else if c = CHR ''t'' then (Some (buf @ [CHR 0x09]), p)
      else if c = CHR ''u'' then
        (case hex_digits 4 0 (advance 1 p) of
           (None, p') \<Rightarrow> (None, p')
         | (Some codepoint, p') \<Rightarrow> (Some (buf @ utf8_encode codepoint), retreat p'))
      else (None, set_error InvalidEscapeSequence p))"

lemma hex_digits_position:
  "hex_digits n cp p = (r, p') \<Longrightarrow> length_p p' = length_p p \<and> position p \<le> position p'"
  by (induction n cp p rule: hex_digits.induct)
     (auto simp: set_error_def advance_def Let_def split: if_splits)

lemma hex_digits_Some_position:
  "hex_digits n cp p = (Some c, p') \<Longrightarrow> position p' = position p + n"
  by (induction n cp p rule: hex_digits.induct)
     (auto simp: set_error_def advance_def Let_def split: if_splits)

lemma escape_position:
  "escape buf p = (Some b, p') \<Longrightarrow> length_p p' = length_p p \<and> position p \<le> position p'"
  by (auto simp: escape_def Let_def retreat_def advance_def
           split: if_splits prod.splits option.splits
           dest!: hex_digits_Some_position hex_digits_position)

text \<open>The \<open>while\<close> loop of \<open>parse_string\<close>; \<open>buf\<close> is the buffer up to \<open>buffer_pos\<close>.\<close>

function string_loop :: "string \<Rightarrow> parser \<Rightarrow> string option \<times> parser" where
  "string_loop buf p =
     (if position p < length_p p \<and> cur p \<noteq> DQUOTE then
        (if length buf \<ge> MAX_STRING_SIZE - 1 then (None, set_error StringTooLong p)
         else if cur p = BACKSLASH then
           (let p1 = advance 1 p in
            if position p1 \<ge> length_p p1 then (None, set_error UnterminatedString p1)
            else (case escape buf p1 of
                    (None, p2) \<Rightarrow> (None, p2)
                  | (Some buf2, p2) \<Rightarrow> string_loop buf2 (advance 1 p2)))
         else if (of_char (cur p) :: nat) < 0x20
           then (None, set_error InvalidControlCharacterInString p)
         else string_loop (buf @ [cur p]) (advance 1 p))
      else (Some buf, p))"
  by pat_completeness auto
termination
  by (relation "measure (\<lambda>(buf, p). length_p p - position p)")
     (auto simp: advance_def dest!: escape_position [OF sym])

declare string_loop.simps [simp del]

definition parse_string :: "parser \<Rightarrow> json_value option \<times> parser" where
  "parse_string p0 =
     (case consume_char p0 DQUOTE of
        (False, p) \<Rightarrow> (None, p)
      | (True, p) \<Rightarrow>
          (case string_loop [] p of
             (None, p) \<Rightarrow> (None, p)
           | (Some buf, p) \<Rightarrow>
               if position p \<ge> length_p p then (None, set_error UnterminatedString p)
               else (Some (JSON_STRING buf), advance 1 p)))"



subsection \<open>The cursor only moves forward\<close>

lemma advance_sel [simp]:
  "input (advance n p) = input p" "position (advance n p) = position p + n"
  "length_p (advance n p) = length_p p" "line (advance n p) = line p"
  "column (advance n p) = column p + int n" "error (advance n p) = error p"
  "depth (advance n p) = depth p" "errno (advance n p) = errno p"
  by (simp_all add: advance_def)

lemma set_error_sel [simp]:
  "input (set_error k p) = input p" "position (set_error k p) = position p"
  "length_p (set_error k p) = length_p p" "line (set_error k p) = line p"
  "column (set_error k p) = column p" "error (set_error k p) = Some (ErrorAt k (line p) (column p))"
  "depth (set_error k p) = depth p" "errno (set_error k p) = errno p"
  by (simp_all add: set_error_def)

lemma retreat_sel [simp]:
  "input (retreat p) = input p" "position (retreat p) = position p - 1"
  "length_p (retreat p) = length_p p" "line (retreat p) = line p"
  "column (retreat p) = column p - 1" "error (retreat p) = error p"
  "depth (retreat p) = depth p" "errno (retreat p) = errno p"
  by (simp_all add: retreat_def)

lemma cur_advance: "cur (advance n p) = input p ! (position p + n)"
  by (simp add: cur_def)

text \<open>The cursor only moves forward, and the length of the input is never changed.\<close>

definition moved :: "parser \<Rightarrow> parser \<Rightarrow> bool" where
  "moved p p' = (input p' = input p \<and> length_p p' = length_p p \<and> position p \<le> position p' \<and>
                 depth p' = depth p)"

lemma moved_refl [simp]: "moved p p"
  by (simp add: moved_def)

lemma moved_trans: "moved p q \<Longrightarrow> moved q r \<Longrightarrow> moved p r"
  by (auto simp: moved_def)

lemma moved_advance [simp]: "moved p q \<Longrightarrow> moved p (advance n q)"
  by (auto simp: moved_def)

lemma moved_set_error [simp]: "moved p (set_error k q) = moved p q"
  by (auto simp: moved_def)

lemma moved_errno [simp]: "moved p (q\<lparr>errno := e\<rparr>) = moved p q"
  by (auto simp: moved_def)

lemma moved_advance_left: "moved (advance n p) q \<Longrightarrow> moved p q"
  by (auto simp: moved_def)

lemma skip_whitespace_moved: "moved p (skip_whitespace p)"
proof (induction p rule: skip_whitespace.induct)
  case (1 p)
  show ?case
  proof (cases "position p < length_p p \<and> is_space (cur p)")
    case True
    let ?q = "(if cur p = CHR 0x0A then p\<lparr>line := line p + 1, column := 0\<rparr>
               else p\<lparr>column := column p + 1\<rparr>)\<lparr>position := position p + 1\<rparr>"
    from True 1 have "moved ?q (skip_whitespace ?q)"
      by simp
    moreover from True have "skip_whitespace p = skip_whitespace ?q"
      by (subst skip_whitespace.simps) simp
    ultimately show ?thesis by (auto simp: moved_def)
  next
    case False
    then have "skip_whitespace p = p"
      by (subst skip_whitespace.simps) auto
    then show ?thesis by simp
  qed
qed

lemma peek_char_moved: "peek_char p c = (b, p') \<Longrightarrow> moved p p'"
  using skip_whitespace_moved [of p]
  by (auto simp: peek_char_def Let_def split: if_splits)

lemma consume_char_moved: "consume_char p c = (b, p') \<Longrightarrow> moved p p'"
  using skip_whitespace_moved [of p]
  by (auto simp: consume_char_def Let_def split: if_splits)

lemma consume_char_True:
  "consume_char p c = (True, p') \<Longrightarrow> position p < position p' \<and> position p' \<le> length_p p'"
  using skip_whitespace_moved [of p]
  by (auto simp: consume_char_def Let_def moved_def split: if_splits)

lemma parse_null_moved: "parse_null p = (r, p') \<Longrightarrow> moved p p'"
  by (auto simp: parse_null_def split: if_splits)

lemma parse_boolean_moved: "parse_boolean p = (r, p') \<Longrightarrow> moved p p'"
  by (auto simp: parse_boolean_def split: if_splits)

lemma number_digits_moved: "number_digits buf p = (b, buf', p') \<Longrightarrow> moved p p'"
proof (induction buf p rule: number_digits.induct)
  case (1 buf p)
  show ?case
  proof (cases "position p < length_p p \<and> isdigit (cur p) \<and> \<not> length buf \<ge> MAX_NUMBER_SIZE - 1")
    case True
    with "1.prems" have "number_digits (buf @ [cur p]) (advance 1 p) = (b, buf', p')"
      by (subst (asm) number_digits.simps) simp
    with True "1.IH" show ?thesis by (auto dest: moved_advance_left)
  next
    case False
    with "1.prems" show ?thesis
      by (subst (asm) number_digits.simps) (auto split: if_splits)
  qed
qed

lemma number_int_moved: "number_int p = (b, buf', p') \<Longrightarrow> moved p p'"
  by (auto simp: number_int_def Let_def split: if_splits prod.splits
           dest!: number_digits_moved dest: moved_advance_left)

lemma number_frac_moved: "number_frac buf p = (b, buf', p') \<Longrightarrow> moved p p'"
  by (auto simp: number_frac_def Let_def split: if_splits prod.splits
           dest!: number_digits_moved dest: moved_advance_left)

lemma number_exp_moved: "number_exp buf p = (b, buf', p') \<Longrightarrow> moved p p'"
  by (auto simp: number_exp_def Let_def split: if_splits prod.splits
           dest!: number_digits_moved dest: moved_advance_left)

lemma number_token_moved: "number_token p = (b, buf', p') \<Longrightarrow> moved p p'"
  by (auto simp: number_token_def split: prod.splits bool.splits
           dest!: number_int_moved number_frac_moved number_exp_moved
           intro: moved_trans)

lemma parse_number_moved: "parse_number p = (r, p') \<Longrightarrow> moved p p'"
  by (auto simp: parse_number_def Let_def split: prod.splits bool.splits if_splits
           dest!: number_token_moved)

lemma hex_digits_moved: "hex_digits n cp p = (r, p') \<Longrightarrow> moved p p'"
  by (induction n cp p rule: hex_digits.induct)
     (auto simp: Let_def split: if_splits dest: moved_advance_left)

lemma escape_moved: "escape buf p = (r, p') \<Longrightarrow> moved p p'"
  by (cases r)
     (auto simp: escape_def Let_def moved_def split: if_splits prod.splits option.splits
           dest: hex_digits_moved hex_digits_Some_position)

lemma string_loop_moved: "string_loop buf p = (r, p') \<Longrightarrow> moved p p'"
proof (induction buf p arbitrary: r p' rule: string_loop.induct)
  case (1 buf p)
  show ?case
  proof (cases "position p < length_p p \<and> cur p \<noteq> DQUOTE \<and> \<not> length buf \<ge> MAX_STRING_SIZE - 1")
    case False
    with "1.prems" show ?thesis
      by (subst (asm) string_loop.simps) (auto split: if_splits)
  next
    case True
    note T = this
    show ?thesis
    proof (cases "cur p = BACKSLASH")
      case bs: True
      show ?thesis
      proof (cases "position (advance 1 p) \<ge> length_p (advance 1 p)")
        case True
        with T bs "1.prems" show ?thesis
          by (subst (asm) string_loop.simps) (auto simp: Let_def)
      next
        case nend: False
        show ?thesis
        proof (cases "escape buf (advance 1 p)")
          case (Pair eo p2)
          note e = escape_moved [OF Pair]
          show ?thesis
          proof (cases eo)
            case None
            with Pair T bs nend "1.prems" have "p' = p2"
              by (subst (asm) string_loop.simps) (auto simp: Let_def)
            with e show ?thesis by (auto dest: moved_advance_left)
          next
            case (Some buf2)
            with Pair T bs nend "1.prems"
            have "string_loop buf2 (advance 1 p2) = (r, p')"
              by (subst (asm) string_loop.simps) (auto simp: Let_def)
            with "1.IH"(1) T bs nend Pair Some
            have "moved (advance 1 p2) p'"
              by auto
            with e show ?thesis by (auto simp: moved_def)
          qed
        qed
      qed
    next
      case nbs: False
      show ?thesis
      proof (cases "(of_char (cur p) :: nat) < 0x20")
        case True
        with T nbs "1.prems" show ?thesis
          by (subst (asm) string_loop.simps) (auto simp: Let_def)
      next
        case False
        with T nbs "1.prems" have "string_loop (buf @ [cur p]) (advance 1 p) = (r, p')"
          by (subst (asm) string_loop.simps) (auto simp: Let_def)
        with "1.IH"(2) T nbs False
        have "moved (advance 1 p) p'"
          by auto
        then show ?thesis by (auto dest: moved_advance_left)
      qed
    qed
  qed
qed

lemma parse_string_moved: "parse_string p = (r, p') \<Longrightarrow> moved p p'"
  by (auto simp: parse_string_def split: prod.splits bool.splits option.splits if_splits
           dest!: consume_char_moved string_loop_moved intro: moved_trans)

lemma parse_string_Some:
  "parse_string p = (Some v, p') \<Longrightarrow> \<exists>s. v = JSON_STRING s"
  by (auto simp: parse_string_def split: prod.splits bool.splits option.splits if_splits)

text \<open>
  What a call of the recursive-descent functions leaves behind: the input is untouched,
  the cursor has not moved back, and the depth counter is back at its value on entry
  when a value is returned, and not below it when the call fails.
\<close>

definition post :: "parser \<Rightarrow> 'a option \<Rightarrow> parser \<Rightarrow> bool" where
  "post p r p' = (input p' = input p \<and> length_p p' = length_p p \<and> position p \<le> position p' \<and>
                  (if r = None then depth p \<le> depth p' else depth p' = depth p))"

lemma moved_post: "moved p p' \<Longrightarrow> post p r p'"
  by (simp add: moved_def post_def)

lemma moved_post_trans: "moved p q \<Longrightarrow> post q r p' \<Longrightarrow> post p r p'"
  by (auto simp: moved_def post_def)

subsection \<open>Values, arrays and objects\<close>

text \<open>
  \<open>array_loop\<close> and \<open>object_loop\<close> are the \<open>while (1)\<close> loops of \<open>parse_array\<close> and
  \<open>parse_object\<close>, with the elements appended so far; they return at the \<open>break\<close>.
\<close>

function parse_value :: "parser \<Rightarrow> json_value option \<times> parser"
  and parse_array :: "parser \<Rightarrow> json_value option \<times> parser"
  and array_loop :: "json_value list \<Rightarrow> parser \<Rightarrow> json_value list option \<times> parser"
  and parse_object :: "parser \<Rightarrow> json_value option \<times> parser"
  and object_loop :: "(string \<times> json_value) list \<Rightarrow> parser \<Rightarrow> (string \<times> json_value) list option \<times> parser"
where
  "parse_value p0 =
     (let p = skip_whitespace p0 in
      if position p \<ge> length_p p then (None, set_error UnexpectedEndOfInput p)
      else (let c = cur p in
            if c = CHR ''n'' then parse_null p
            else if c = CHR ''t'' \<or> c = CHR ''f'' then parse_boolean p
            else if c = DQUOTE then parse_string p
            else if c = CHR ''['' then parse_array p
            else if c = CHR ''{'' then parse_object p
            else if c = CHR ''-'' \<or> isdigit c then parse_number p
            else (None, set_error (UnexpectedCharacter c) p)))"
| "parse_array p0 =
     (case consume_char p0 (CHR ''['') of
        (False, p) \<Rightarrow> (None, p)
      | (True, p1) \<Rightarrow>
          (let p2 = p1\<lparr>depth := depth p1 + 1\<rparr> in
           if depth p2 > MAX_DEPTH then (None, set_error MaxNestingDepthExceeded p2)
           else (case peek_char (skip_whitespace p2) (CHR '']'') of
                   (True, p3) \<Rightarrow>
                     (let p4 = snd (consume_char p3 (CHR '']''))
                      in (Some (JSON_ARRAY []), p4\<lparr>depth := depth p4 - 1\<rparr>))
                 | (False, p3) \<Rightarrow>
                     (case array_loop [] p3 of
                        (None, p) \<Rightarrow> (None, p)
                      | (Some items, p4) \<Rightarrow>
                          (Some (JSON_ARRAY items), p4\<lparr>depth := depth p4 - 1\<rparr>)))))"
| "array_loop items p0 =
     (case parse_value p0 of
        (None, p) \<Rightarrow> (None, p)
      | (Some item, p1) \<Rightarrow>
          (case peek_char (skip_whitespace p1) (CHR '']'') of
             (True, p2) \<Rightarrow> (Some (items @ [item]), snd (consume_char p2 (CHR '']'')))
           | (False, p2) \<Rightarrow>
               (case consume_char p2 (CHR '','') of
                  (False, p) \<Rightarrow> (None, p)
                | (True, p3) \<Rightarrow> array_loop (items @ [item]) p3)))"
| "parse_object p0 =
     (case consume_char p0 (CHR ''{'') of
        (False, p) \<Rightarrow> (None, p)
      | (True, p1) \<Rightarrow>
          (let p2 = p1\<lparr>depth := depth p1 + 1\<rparr> in
           if depth p2 > MAX_DEPTH then (None, set_error MaxNestingDepthExceeded p2)
           else (case peek_char (skip_whitespace p2) (CHR ''}'') of
                   (True, p3) \<Rightarrow>
                     (let p4 = snd (consume_char p3 (CHR ''}''))
                      in (Some (JSON_OBJECT []), p4\<lparr>depth := depth p4 - 1\<rparr>))
                 | (False, p3) \<Rightarrow>
                     (case object_loop [] p3 of
                        (None, p) \<Rightarrow> (None, p)
                      | (Some pairs, p4) \<Rightarrow>
                          (Some (JSON_OBJECT pairs), p4\<lparr>depth := depth p4 - 1\<rparr>)))))"
| "object_loop pairs p0 =
     (case parse_string p0 of
        (None, p) \<Rightarrow> (None, set_error ExpectedStringKey p)
      | (Some (JSON_STRING key), p1) \<Rightarrow>
          (case consume_char p1 (CHR '':'') of
             (False, p) \<Rightarrow> (None, p)
           | (True, p2) \<Rightarrow>
               (case parse_value p2 of
                  (None, p) \<Rightarrow> (None, p)
                | (Some val, p3) \<Rightarrow>
                    (case peek_char (skip_whitespace p3) (CHR ''}'') of
                       (True, p4) \<Rightarrow>
                         (Some (pairs @ [(key, val)]), snd (consume_char p4 (CHR ''}'')))
                     | (False, p4) \<Rightarrow>
                         (case consume_char p4 (CHR '','') of
                            (False, p) \<Rightarrow> (None, p)
                          | (True, p5) \<Rightarrow> object_loop (pairs @ [(key, val)]) p5))))
      | (Some _, p) \<Rightarrow> (None, set_error ExpectedStringKey p))"
  by pat_completeness auto





lemma parse_post_partial:
  "parse_value_parse_array_array_loop_parse_object_object_loop_dom (Inl (Inl p1)) \<Longrightarrow>
     parse_value p1 = (r1, q1) \<Longrightarrow> post p1 r1 q1"
  "parse_value_parse_array_array_loop_parse_object_object_loop_dom (Inl (Inr p2)) \<Longrightarrow>
     parse_array p2 = (r2, q2) \<Longrightarrow> post p2 r2 q2"
  "parse_value_parse_array_array_loop_parse_object_object_loop_dom (Inr (Inl (items, p3))) \<Longrightarrow>
     array_loop items p3 = (r3, q3) \<Longrightarrow> post p3 r3 q3"
  "parse_value_parse_array_array_loop_parse_object_object_loop_dom (Inr (Inr (Inl p4))) \<Longrightarrow>
     parse_object p4 = (r4, q4) \<Longrightarrow> post p4 r4 q4"
  "parse_value_parse_array_array_loop_parse_object_object_loop_dom (Inr (Inr (Inr (pairs, p5)))) \<Longrightarrow>
     object_loop pairs p5 = (r5, q5) \<Longrightarrow> post p5 r5 q5"
proof (induct p1 and p2 and items p3 and p4 and pairs p5
       arbitrary: r1 q1 and r2 q2 and r3 q3 and r4 q4 and r5 q5
       rule: parse_value_parse_array_array_loop_parse_object_object_loop.pinduct)
  case (1 p0)
  let ?p = "skip_whitespace p0"
  note sw = skip_whitespace_moved [of p0]
  note eq = parse_value.psimps [OF "1.hyps"(1)]
  consider (a) "cur ?p = CHR ''['' \<and> \<not> length_p ?p \<le> position ?p"
    | (b) "cur ?p = CHR ''{'' \<and> \<not> length_p ?p \<le> position ?p"
    | (c) "\<not> (cur ?p = CHR ''['' \<and> \<not> length_p ?p \<le> position ?p) \<and>
           \<not> (cur ?p = CHR ''{'' \<and> \<not> length_p ?p \<le> position ?p)"
    by blast
  then show ?case
  proof cases
    case a
    then have "parse_value p0 = parse_array ?p" by (simp add: eq Let_def)
    with "1.prems" have "parse_array ?p = (r1, q1)" by simp
    with "1.hyps"(2) [OF refl _ refl] a have "post ?p r1 q1" by simp
    with sw show ?thesis by (rule moved_post_trans)
  next
    case b
    then have "parse_value p0 = parse_object ?p" by (simp add: eq Let_def)
    with "1.prems" have "parse_object ?p = (r1, q1)" by simp
    with "1.hyps"(3) [OF refl _ refl] b have "post ?p r1 q1" by simp
    with sw show ?thesis by (rule moved_post_trans)
  next
    case c
    then have "parse_value p0 = (None, set_error UnexpectedEndOfInput ?p)
       \<or> parse_value p0 = parse_null ?p \<or> parse_value p0 = parse_boolean ?p
       \<or> parse_value p0 = parse_string ?p \<or> parse_value p0 = parse_number ?p
       \<or> parse_value p0 = (None, set_error (UnexpectedCharacter (cur ?p)) ?p)"
      unfolding eq Let_def by presburger
    with "1.prems" have "moved ?p q1"
      by (elim disjE)
         (auto dest: parse_null_moved parse_boolean_moved parse_string_moved
                    parse_number_moved)
    with sw show ?thesis by (blast intro: moved_post moved_trans)
  qed
next
  case (2 p0)
  note eq = parse_array.psimps [OF "2.hyps"(1)]
  obtain b p1 where c1: "consume_char p0 (CHR ''['') = (b, p1)" by force
  note m1 = consume_char_moved [OF c1]
  let ?p2 = "p1\<lparr>depth := depth p1 + 1\<rparr>"
  obtain b3 p3 where c3: "peek_char (skip_whitespace ?p2) (CHR '']'') = (b3, p3)" by force
  have m3: "moved ?p2 p3"
    using skip_whitespace_moved [of ?p2] peek_char_moved [OF c3] by (rule moved_trans)
  obtain b4 p4 where c4: "consume_char p3 (CHR '']'') = (b4, p4)" by force
  note m4 = consume_char_moved [OF c4]
  obtain ro p5 where c5: "array_loop [] p3 = (ro, p5)" by force
  show ?case
  proof (cases "b \<and> \<not> MAX_DEPTH < depth p1 + 1 \<and> \<not> b3")
    case True
    with "2.hyps"(2) [OF c1 [symmetric] _ refl _ c3 [symmetric] _ c5] have "post p3 ro p5"
      by simp
    moreover from True "2.prems" c1 c3 c5
    have "(r2, q2) = (case ro of None \<Rightarrow> (None, p5)
                       | Some items \<Rightarrow> (Some (JSON_ARRAY items), p5\<lparr>depth := depth p5 - 1\<rparr>))"
      by (simp add: eq Let_def)
    ultimately show ?thesis using m1 m3
      by (auto simp: post_def moved_def split: option.splits)
  next
    case False
    with "2.prems" c1 c3 c4 m1 m3 m4 show ?thesis
      by (auto simp: eq Let_def post_def moved_def split: if_splits bool.splits)
  qed
next
  case (3 items p0)
  note eq = array_loop.psimps [OF "3.hyps"(1)]
  obtain vo p1 where c1: "parse_value p0 = (vo, p1)" by force
  note m1 = "3.hyps"(2) [OF c1]
  obtain b2 p2 where c2: "peek_char (skip_whitespace p1) (CHR '']'') = (b2, p2)" by force
  have m2: "moved p1 p2"
    using skip_whitespace_moved [of p1] peek_char_moved [OF c2] by (rule moved_trans)
  obtain b3 p3 where c3: "consume_char p2 (CHR '']'') = (b3, p3)" by force
  note m3 = consume_char_moved [OF c3]
  obtain b4 p4 where c4: "consume_char p2 (CHR '','') = (b4, p4)" by force
  note m4 = consume_char_moved [OF c4]
  show ?case
  proof (cases "vo \<noteq> None \<and> \<not> b2 \<and> b4")
    case True
    then obtain item where vo: "vo = Some item" by auto
    from True vo "3.prems" c1 c2 c4 have "array_loop (items @ [item]) p4 = (r3, q3)"
      by (simp add: eq)
    with "3.hyps"(3) [OF c1 [symmetric] vo c2 [symmetric] _ c4 [symmetric]] True
    have "post p4 r3 q3" by simp
    with m1 m2 m4 vo show ?thesis
      by (auto simp: post_def moved_def split: if_splits)
  next
    case False
    with "3.prems" c1 c2 c3 c4 m1 m2 m3 m4 show ?thesis
      by (auto simp: eq post_def moved_def split: if_splits option.splits bool.splits)
  qed
next
  case (4 p0)
  note eq = parse_object.psimps [OF "4.hyps"(1)]
  obtain b p1 where c1: "consume_char p0 (CHR ''{'') = (b, p1)" by force
  note m1 = consume_char_moved [OF c1]
  let ?p2 = "p1\<lparr>depth := depth p1 + 1\<rparr>"
  obtain b3 p3 where c3: "peek_char (skip_whitespace ?p2) (CHR ''}'') = (b3, p3)" by force
  have m3: "moved ?p2 p3"
    using skip_whitespace_moved [of ?p2] peek_char_moved [OF c3] by (rule moved_trans)
  obtain b4 p4 where c4: "consume_char p3 (CHR ''}'') = (b4, p4)" by force
  note m4 = consume_char_moved [OF c4]
  obtain ro p5 where c5: "object_loop [] p3 = (ro, p5)" by force
  show ?case
  proof (cases "b \<and> \<not> MAX_DEPTH < depth p1 + 1 \<and> \<not> b3")
    case True
    with "4.hyps"(2) [OF c1 [symmetric] _ refl _ c3 [symmetric] _ c5] have "post p3 ro p5"
      by simp
    moreover from True "4.prems" c1 c3 c5
    have "(r4, q4) = (case ro of None \<Rightarrow> (None, p5)
                       | Some pairs \<Rightarrow> (Some (JSON_OBJECT pairs), p5\<lparr>depth := depth p5 - 1\<rparr>))"
      by (simp add: eq Let_def)
    ultimately show ?thesis using m1 m3
      by (auto simp: post_def moved_def split: option.splits)
  next
    case False
    with "4.prems" c1 c3 c4 m1 m3 m4 show ?thesis
      by (auto simp: eq Let_def post_def moved_def split: if_splits bool.splits)
  qed
next
  case (5 pairs p0)
  note eq = object_loop.psimps [OF "5.hyps"(1)]
  obtain ko p1 where c1: "parse_string p0 = (ko, p1)" by force
  note m1 = parse_string_moved [OF c1]
  obtain b2 p2 where c2: "consume_char p1 (CHR '':'') = (b2, p2)" by force
  note m2 = consume_char_moved [OF c2]
  obtain vo p3 where c3: "parse_value p2 = (vo, p3)" by force
  obtain b4 p4 where c4: "peek_char (skip_whitespace p3) (CHR ''}'') = (b4, p4)" by force
  have m4: "moved p3 p4"
    using skip_whitespace_moved [of p3] peek_char_moved [OF c4] by (rule moved_trans)
  obtain b5 p5 where c5: "consume_char p4 (CHR ''}'') = (b5, p5)" by force
  note m5 = consume_char_moved [OF c5]
  obtain b6 p6 where c6: "consume_char p4 (CHR '','') = (b6, p6)" by force
  note m6 = consume_char_moved [OF c6]
  show ?case
  proof (cases "ko \<noteq> None \<and> b2")
    case False
    with "5.prems" c1 c2 m1 m2 parse_string_Some [of p0 _ p1] show ?thesis
      by (auto simp: eq post_def moved_def split: if_splits option.splits json_value.splits bool.splits)
  next
    case kb: True
    with parse_string_Some [of p0 _ p1] c1 obtain key where ko: "ko = Some (JSON_STRING key)"
      by auto
    from "5.hyps"(2) [OF c1 [symmetric] ko refl c2 [symmetric] _ c3] kb
    have m3: "post p2 vo p3" by simp
    show ?thesis
    proof (cases "vo \<noteq> None \<and> \<not> b4 \<and> b6")
      case True
      then obtain val where vo: "vo = Some val" by auto
      from True vo ko kb "5.prems" c1 c2 c3 c4 c6
      have "object_loop (pairs @ [(key, val)]) p6 = (r5, q5)"
        by (simp add: eq)
      with "5.hyps"(3) [OF c1 [symmetric] ko refl c2 [symmetric] _ c3 [symmetric] vo
                             c4 [symmetric] _ c6 [symmetric]] True kb
      have "post p6 r5 q5" by simp
      with m1 m2 m3 m4 m6 vo show ?thesis
        by (auto simp: post_def moved_def split: if_splits)
    next
      case False
      with kb ko "5.prems" c1 c2 c3 c4 c5 c6 m1 m2 m3 m4 m5 m6 show ?thesis
        by (auto simp: eq post_def moved_def split: if_splits option.splits bool.splits)
    qed
  qed
qed


definition parse_measure ::
  "(parser + parser) + (json_value list \<times> parser) + parser + ((string \<times> json_value) list \<times> parser) \<Rightarrow> nat" where
  "parse_measure x =
     (case x of
        Inl (Inl p) \<Rightarrow> 4 * (length_p p - position p) + 2
      | Inl (Inr p) \<Rightarrow> 4 * (length_p p - position p) + 1
      | Inr (Inl (items, p)) \<Rightarrow> 4 * (length_p p - position p) + 3
      | Inr (Inr (Inl p)) \<Rightarrow> 4 * (length_p p - position p) + 1
      | Inr (Inr (Inr (pairs, p))) \<Rightarrow> 4 * (length_p p - position p) + 3)"

lemma parse_dom: "All parse_value_parse_array_array_loop_parse_object_object_loop_dom"
proof (relation "measure parse_measure", goal_cases)
  case 1
  show ?case by simp
next
  case (2 p0 x xa)
  with skip_whitespace_moved [of p0] show ?case
    by (auto simp: parse_measure_def moved_def)
next
  case (3 p0 x xa)
  with skip_whitespace_moved [of p0] show ?case
    by (auto simp: parse_measure_def moved_def)
next
  case (4 p0 x y xa xb ya)
  from 4(1) [symmetric] 4(2) have "consume_char p0 (CHR ''['') = (True, y)" by simp
  note a = consume_char_moved [OF this] consume_char_True [OF this]
  from 4(5) [symmetric] have "moved (skip_whitespace xa) ya" by (rule peek_char_moved)
  with skip_whitespace_moved [of xa] have "moved xa ya" by (rule moved_trans)
  with a 4(3) show ?case
    by (auto simp: parse_measure_def moved_def)
next
  case (5 items p0)
  show ?case by (simp add: parse_measure_def)
next
  case (6 items p0 x y x2 xa ya xb yb)
  from parse_post_partial(1) [OF 6(7) 6(1) [symmetric]] have a: "post p0 x y" .
  from 6(3) [symmetric] have "moved (skip_whitespace y) ya" by (rule peek_char_moved)
  with skip_whitespace_moved [of y] have b: "moved y ya" by (rule moved_trans)
  from 6(5) [symmetric] 6(6) have "consume_char ya (CHR '','') = (True, yb)" by simp
  note c = consume_char_moved [OF this] consume_char_True [OF this]
  from a b c show ?case
    by (auto simp: parse_measure_def moved_def post_def)
next
  case (7 p0 x y xa xb ya)
  from 7(1) [symmetric] 7(2) have "consume_char p0 (CHR ''{'') = (True, y)" by simp
  note a = consume_char_moved [OF this] consume_char_True [OF this]
  from 7(5) [symmetric] have "moved (skip_whitespace xa) ya" by (rule peek_char_moved)
  with skip_whitespace_moved [of xa] have "moved xa ya" by (rule moved_trans)
  with a 7(3) show ?case
    by (auto simp: parse_measure_def moved_def)
next
  case (8 pairs p0 x y x2 x4 xa ya)
  from 8(1) [symmetric] have a: "moved p0 y" by (rule parse_string_moved)
  from 8(4) [symmetric] 8(5) have "consume_char y (CHR '':'') = (True, ya)" by simp
  note c = consume_char_moved [OF this] consume_char_True [OF this]
  from a c show ?case
    by (auto simp: parse_measure_def moved_def)
next
  case (9 pairs p0 x y x2 x4 xa ya xb yb x2a xc yc xd yd)
  from 9(1) [symmetric] have a: "moved p0 y" by (rule parse_string_moved)
  from 9(4) [symmetric] 9(5) have "consume_char y (CHR '':'') = (True, ya)" by simp
  note c = consume_char_moved [OF this] consume_char_True [OF this]
  from parse_post_partial(1) [OF 9(12) 9(6) [symmetric]] have d: "post ya xb yb" .
  from 9(8) [symmetric] have "moved (skip_whitespace yb) yc" by (rule peek_char_moved)
  with skip_whitespace_moved [of yb] have e: "moved yb yc" by (rule moved_trans)
  from 9(10) [symmetric] 9(11) have "consume_char yc (CHR '','') = (True, yd)" by simp
  note f = consume_char_moved [OF this] consume_char_True [OF this]
  from a c d e f show ?case
    by (auto simp: parse_measure_def moved_def post_def)
qed

termination parse_value
  by (rule parse_dom)

lemma parse_value_post: "parse_value p = (r, p') \<Longrightarrow> post p r p'"
  by (rule parse_post_partial(1) [OF spec [OF parse_dom]])

lemma parse_array_post: "parse_array p = (r, p') \<Longrightarrow> post p r p'"
  by (rule parse_post_partial(2) [OF spec [OF parse_dom]])

lemma array_loop_post: "array_loop items p = (r, p') \<Longrightarrow> post p r p'"
  by (rule parse_post_partial(3) [OF spec [OF parse_dom]])

lemma parse_object_post: "parse_object p = (r, p') \<Longrightarrow> post p r p'"
  by (rule parse_post_partial(4) [OF spec [OF parse_dom]])

lemma object_loop_post: "object_loop pairs p = (r, p') \<Longrightarrow> post p r p'"
  by (rule parse_post_partial(5) [OF spec [OF parse_dom]])

declare parse_value.simps [simp del] parse_array.simps [simp del] array_loop.simps [simp del]
  parse_object.simps [simp del] object_loop.simps [simp del]

subsection \<open>The entry point\<close>

text \<open>
  \<open>json_parse\<close> takes the \<open>errno\<close> found on entry and the buffer (\<open>None\<close>: a null
  pointer) and gives the returned pointer, the lines written to \<open>stderr\<close> (each
  \<open>"JSON Parse Error: %s\n"\<close>, kept as the message printed) and the \<open>errno\<close> left
  behind.
\<close>

definition new_parser :: "int \<Rightarrow> string \<Rightarrow> parser" where
  "new_parser errno0 inp =
     \<lparr>input = inp, position = 0, length_p = strlen inp, line = 1, column = 1,
      error = None, depth = 0, errno = errno0\<rparr>"

definition json_parse :: "int \<Rightarrow> string option \<Rightarrow> json_value option \<times> error_msg option list \<times> int" where
  "json_parse errno0 input_opt =
     (case input_opt of
        None \<Rightarrow> (None, [], errno0)
      | Some inp \<Rightarrow>
          (case parse_value (new_parser errno0 inp) of
             (Some v, p1) \<Rightarrow>
               (let p2 = skip_whitespace p1 in
                if position p2 < length_p p2
                  then (let p3 = set_error UnexpectedDataAfterJSON p2
                        in (None, [error p3], errno p3))
                else (Some v, [], errno p2))
           | (None, p1) \<Rightarrow> (None, [error p1], errno p1)))"

subsection \<open>Serializer\<close>

definition json_print_indent :: "nat \<Rightarrow> string" where
  "json_print_indent indent = concat (replicate indent ''  '')"

fun show_nat :: "nat \<Rightarrow> string" where
  "show_nat n = (if n < 10 then [char_of (48 + n)] else show_nat (n div 10) @ [char_of (48 + n mod 10)])"

declare show_nat.simps [simp del]

text \<open>\<open>"%.0f"\<close> applied to a double with an integral value.\<close>

definition fmt_f0 :: "rat \<Rightarrow> string" where
  "fmt_f0 x = (if x < 0 then ''-'' @ show_nat (nat (- \<lfloor>x\<rfloor>)) else show_nat (nat \<lfloor>x\<rfloor>))"

text \<open>
  \<open>print_value\<close> is the \<open>switch\<close> of \<open>json_print_value\<close>, the text it sends to the
  stream; \<open>print_items\<close> and \<open>print_pairs\<close> are its two \<open>for\<close> loops over the elements
  that are left. The conversion \<open>"%g"\<close> of \<open>printf\<close> is a parameter, \<open>G\<close>.
\<close>

fun print_value :: "(rat \<Rightarrow> string) \<Rightarrow> json_value \<Rightarrow> nat \<Rightarrow> bool \<Rightarrow> string"
  and print_items :: "(rat \<Rightarrow> string) \<Rightarrow> json_value list \<Rightarrow> nat \<Rightarrow> bool \<Rightarrow> string"
  and print_pairs :: "(rat \<Rightarrow> string) \<Rightarrow> (string \<times> json_value) list \<Rightarrow> nat \<Rightarrow> bool \<Rightarrow> string"
where
  "print_value G JSON_NULL indent pretty = ''null''"
| "print_value G (JSON_BOOLEAN b) indent pretty = (if b then ''true'' else ''false'')"
| "print_value G (JSON_NUMBER x) indent pretty =
     (if x = of_int \<lfloor>x\<rfloor> \<and> \<bar>x\<bar> < 10 ^ 10 then fmt_f0 x else G x)"
| "print_value G (JSON_STRING s) indent pretty = [DQUOTE] @ c_str s @ [DQUOTE]"
| "print_value G (JSON_ARRAY items) indent pretty =
     ''['' @ (if pretty \<and> length items > 0 then [CHR 0x0A] else [])
     @ print_items G items indent pretty
     @ (if pretty \<and> length items > 0 then json_print_indent indent else [])
     @ '']''"
| "print_value G (JSON_OBJECT pairs) indent pretty =
     ''{'' @ (if pretty \<and> length pairs > 0 then [CHR 0x0A] else [])
     @ print_pairs G pairs indent pretty
     @ (if pretty \<and> length pairs > 0 then json_print_indent indent else [])
     @ ''}''"
| "print_items G [] indent pretty = []"
| "print_items G (item # rest) indent pretty =
     (if pretty then json_print_indent (indent + 1) else [])
     @ print_value G item (indent + 1) pretty
     @ (if rest \<noteq> [] then '','' else [])
     @ (if pretty then [CHR 0x0A] else [])
     @ print_items G rest indent pretty"
| "print_pairs G [] indent pretty = []"
| "print_pairs G (pair # rest) indent pretty =
     (if pretty then json_print_indent (indent + 1) else [])
     @ [DQUOTE] @ c_str (fst pair) @ [DQUOTE] @ '':''
     @ (if pretty then '' '' else [])
     @ print_value G (snd pair) (indent + 1) pretty
     @ (if rest \<noteq> [] then '','' else [])
     @ (if pretty then [CHR 0x0A] else [])
     @ print_pairs G rest indent pretty"

definition json_print_value :: "(rat \<Rightarrow> string) \<Rightarrow> json_value option \<Rightarrow> nat \<Rightarrow> bool \<Rightarrow> string" where
  "json_print_value G value indent pretty =
     (case value of None \<Rightarrow> ''null'' | Some v \<Rightarrow> print_value G v indent pretty)"

subsection \<open>Accessors\<close>

definition json_get_array_item :: "json_value option \<Rightarrow> nat \<Rightarrow> json_value option" where
  "json_get_array_item array index =
     (case array of
        Some (JSON_ARRAY items) \<Rightarrow> (if index \<ge> length items then None else Some (items ! index))
      | _ \<Rightarrow> None)"

text \<open>\<open>strcmp(a, b) == 0\<close>: the two strings agree up to their terminators.\<close>

definition strcmp_eq :: "string \<Rightarrow> string \<Rightarrow> bool" where
  "strcmp_eq a b = (c_str a = c_str b)"

text \<open>The \<open>for\<close> loop of \<open>json_get_object_value\<close> over the pairs from index \<open>i\<close> on.\<close>

fun find_pair :: "(string \<times> json_value) list \<Rightarrow> string \<Rightarrow> json_value option" where
  "find_pair [] key = None"
| "find_pair (pair # rest) key =
     (if strcmp_eq (fst pair) key then Some (snd pair) else find_pair rest key)"

definition json_get_object_value :: "json_value option \<Rightarrow> string option \<Rightarrow> json_value option" where
  "json_get_object_value object key =
     (case (object, key) of
        (Some (JSON_OBJECT pairs), Some k) \<Rightarrow> find_pair pairs k
      | _ \<Rightarrow> None)"





subsection \<open>Evaluating the parser on a given buffer\<close>

lemma range_error_0: "\<not> range_error 0"
  by (simp add: range_error_def)

lemma range_error_mid: "1 \<le> \<bar>v\<bar> \<Longrightarrow> \<bar>v\<bar> < 10 ^ 10 \<Longrightarrow> \<not> range_error v"
proof -
  assume a: "1 \<le> \<bar>v\<bar>" and b: "\<bar>v\<bar> < 10 ^ 10"
  have "(1::rat) / 2 ^ 1022 \<le> 1" by simp
  moreover have "(10::rat) ^ 10 \<le> 2 ^ 1024 - 2 ^ 970" by simp
  ultimately show ?thesis using a b by (auto simp: range_error_def)
qed

lemmas strtod_defs = strtod_def strtod_sign_def strtod_fraction_def strtod_exponent_def
  isdigit_def decimal_def pow10_def Let_def

lemma strtod_0: "strtod ''0'' = (0, [], False)"
  by (simp add: strtod_defs range_error_0)

lemma strtod_1: "strtod ''1'' = (1, [], False)"
  by (simp add: strtod_defs range_error_mid)

lemma strtod_2: "strtod ''2'' = (2, [], False)"
  by (simp add: strtod_defs range_error_mid)

lemma strtod_m05e2: "strtod ''-0.5e2'' = (- 50, [], False)"
  by (simp add: strtod_defs range_error_mid)

lemma hex_digits_4: "hex_digits 4 cp p = hex_digits (Suc (Suc (Suc (Suc 0)))) cp p"
  by (simp add: eval_nat_numeral)

lemmas scan_defs = cur_def peek_char_def consume_char_def is_space_def strncmp_at_def
  parse_null_def parse_boolean_def isdigit_def number_int_def number_frac_def number_exp_def
  number_token_def parse_number_def parse_hex_digit_def utf8_encode_def escape_def
  parse_string_def MAX_DEPTH_def MAX_STRING_SIZE_def MAX_NUMBER_SIZE_def ERANGE_def
  strlen_def c_str_def Let_def advance_def set_error_def retreat_def new_parser_def
  hex_digits_4 char_of_eq_iff

lemmas scan_simps = skip_whitespace.simps number_digits.simps string_loop.simps
  parse_value.simps parse_array.simps array_loop.simps parse_object.simps object_loop.simps


section \<open>Properties\<close>

subsection \<open>Accessors and the entry point on degenerate arguments\<close>

text \<open>
  C10. The read operations return "absent" on degenerate arguments: \<open>json_get_array_item\<close>
  gives \<open>NULL\<close> for a null receiver and for a receiver of any type but array,
  \<open>json_get_object_value\<close> gives \<open>NULL\<close> for a null receiver, for a receiver of any
  type but object, and for a null key, and \<open>json_parse\<close> on a null buffer returns
  \<open>NULL\<close>, having written nothing and left \<open>errno\<close> alone.
\<close>

theorem degenerate_inputs_absent:
  "json_get_array_item None i = None \<and>
   json_get_array_item (Some JSON_NULL) i = None \<and>
   json_get_array_item (Some (JSON_BOOLEAN b)) i = None \<and>
   json_get_array_item (Some (JSON_NUMBER x)) i = None \<and>
   json_get_array_item (Some (JSON_STRING s)) i = None \<and>
   json_get_array_item (Some (JSON_OBJECT pairs)) i = None \<and>
   json_get_object_value None key = None \<and>
   json_get_object_value (Some JSON_NULL) key = None \<and>
   json_get_object_value (Some (JSON_BOOLEAN b)) key = None \<and>
   json_get_object_value (Some (JSON_NUMBER x)) key = None \<and>
   json_get_object_value (Some (JSON_STRING s)) key = None \<and>
   json_get_object_value (Some (JSON_ARRAY items)) key = None \<and>
   json_get_object_value object None = None \<and>
   json_parse e None = (None, [], e)"
  by (simp add: json_get_array_item_def json_get_object_value_def json_parse_def
           split: option.splits json_value.splits)

subsection \<open>Duplicate keys\<close>

lemma find_pair_find:
  "find_pair pairs key = map_option snd (List.find (\<lambda>pair. strcmp_eq (fst pair) key) pairs)"
  by (induction pairs) auto



subsection \<open>The number grammar\<close>

lemma strlen_Cons: "c \<noteq> CHR 0x00 \<Longrightarrow> strlen (c # s) = Suc (strlen s)"
  by (simp add: strlen_def c_str_def)

lemma isdigit_not_NUL: "isdigit d \<Longrightarrow> d \<noteq> CHR 0x00"
  by (auto simp: isdigit_def)



subsection \<open>Trailing data\<close>

lemma skip_whitespace_stops:
  "position p \<le> i \<Longrightarrow> i < length_p p \<Longrightarrow> \<not> is_space (input p ! i) \<Longrightarrow>
   position (skip_whitespace p) \<le> i"
proof (induction p rule: skip_whitespace.induct)
  case (1 p)
  show ?case
  proof (cases "position p < length_p p \<and> is_space (cur p)")
    case True
    let ?q = "(if cur p = CHR 0x0A then p\<lparr>line := line p + 1, column := 0\<rparr>
               else p\<lparr>column := column p + 1\<rparr>)\<lparr>position := position p + 1\<rparr>"
    from True "1.prems" have "position p \<noteq> i" by (auto simp: cur_def)
    with "1.prems" have "position ?q \<le> i" "i < length_p ?q" "\<not> is_space (input ?q ! i)"
      by auto
    with "1.IH" [OF _ refl] True have "position (skip_whitespace ?q) \<le> i" by simp
    moreover from True have "skip_whitespace p = skip_whitespace ?q"
      by (subst skip_whitespace.simps) simp
    ultimately show ?thesis by simp
  next
    case False
    then have "skip_whitespace p = p"
      by (subst skip_whitespace.simps) auto
    with "1.prems" show ?thesis by simp
  qed
qed

text \<open>
  C8. Whenever the first complete value is followed by a byte that is not white space,
  \<open>json_parse\<close> returns \<open>NULL\<close> and the one message it prints is "Unexpected data after
  JSON": here \<open>i\<close> is the index of such a byte, at or after the cursor that
  \<open>parse_value\<close> left and before the end of the buffer.
\<close>

theorem trailing_data_rejected:
  assumes "parse_value (new_parser e inp) = (Some v, p1)"
    and "position p1 \<le> i" and "i < strlen inp" and "\<not> is_space (inp ! i)"
  shows "fst (json_parse e (Some inp)) = None \<and>
         map (map_option kind_of) (fst (snd (json_parse e (Some inp)))) =
           [Some UnexpectedDataAfterJSON]"
proof -
  from parse_value_post [OF assms(1)]
  have f: "input p1 = inp" "length_p p1 = strlen inp" 
    by (simp_all add: post_def new_parser_def)
  from skip_whitespace_moved [of p1] f
  have g: "length_p (skip_whitespace p1) = strlen inp"
    by (simp add: moved_def)
  from skip_whitespace_stops [of p1 i] assms f
  have "position (skip_whitespace p1) < length_p (skip_whitespace p1)"
    by (simp add: g)
  with assms(1) show ?thesis
    by (simp add: json_parse_def Let_def)
qed

lemma parse_value_empty_object:
  "parse_value (new_parser 0 ''{} garbage'') =
     (Some (JSON_OBJECT []),
      \<lparr>input = ''{} garbage'', position = 2, length_p = 10, line = 1, column = 3,
       error = None, depth = 0, errno = 0\<rparr>)"
  by (simp add: scan_defs scan_simps)

text \<open>The buffer \<open>{} garbage\<close>: the value ends at index 2 and index 3 holds \<open>g\<close>.\<close>

theorem trailing_data_rejected_witness:
  "fst (json_parse 0 (Some ''{} garbage'')) = None \<and>
   map (map_option kind_of) (fst (snd (json_parse 0 (Some ''{} garbage'')))) =
     [Some UnexpectedDataAfterJSON]"
  using trailing_data_rejected [OF parse_value_empty_object, of 3]
  by (simp add: strlen_def c_str_def is_space_def)

subsection \<open>Unicode escapes\<close>

lemma or_eq_add:
  fixes a b :: int
  assumes "0 \<le> b" "b < 2 ^ n"
  shows "(a * 2 ^ n) OR b = a * 2 ^ n + b"
proof -
  from assms have b: "take_bit n b = b" by (rule take_bit_int_eq_self)
  have "push_bit n a AND take_bit n b = 0"
    by (rule bit_eqI) (auto simp: bit_simps)
  then have "push_bit n a + take_bit n b = push_bit n a OR take_bit n b"
    by (rule disjunctive_add_eq_or)
  then show ?thesis by (simp add: b push_bit_eq_mult)
qed

lemma and_63: "(x::int) AND 0x3F = x mod 64"
proof -
  have "(0x3F::int) = mask 6" by (simp add: mask_eq_exp_minus_1)
  then have "x AND 0x3F = take_bit 6 x" by (simp only: take_bit_eq_mask)
  then show ?thesis by (simp add: take_bit_eq_mod)
qed

lemma parse_hex_digit_range: "parse_hex_digit c = - 1 \<or> (0 \<le> parse_hex_digit c \<and> parse_hex_digit c < 16)"
  by (auto simp: parse_hex_digit_def Let_def)

lemma shift_hex:
  assumes "0 \<le> d" "d < 16"
  shows "push_bit 4 (cp::int) OR d = 16 * cp + d"
  using or_eq_add [of d 4 cp] assms by (simp add: push_bit_eq_mult mult.commute)

text \<open>The standard UTF-8 forms, written with arithmetic instead of bit operations.\<close>

lemma utf8_encode_arith:
  assumes "0 \<le> cp" "cp < 0x10000"
  shows "utf8_encode cp =
     (if cp < 0x80 then [char_of cp]
      else if cp < 0x800 then [char_of (192 + cp div 64), char_of (128 + cp mod 64)]
      else [char_of (224 + cp div 4096), char_of (128 + (cp div 64) mod 64),
            char_of (128 + cp mod 64)])"
proof -
  have m: "0 \<le> cp mod 64" "cp mod 64 < 2 ^ 6" "0 \<le> (cp div 64) mod 64" "(cp div 64) mod 64 < 2 ^ 6"
    by simp_all
  have a: "(0x80::int) OR (cp mod 64) = 128 + cp mod 64"
    using or_eq_add [of "cp mod 64" 6 2] m by simp
  have b: "(0x80::int) OR ((cp div 64) mod 64) = 128 + (cp div 64) mod 64"
    using or_eq_add [of "(cp div 64) mod 64" 6 2] m by simp
  have c: "cp < 0x800 \<Longrightarrow> (0xC0::int) OR (cp div 64) = 192 + cp div 64"
    using or_eq_add [of "cp div 64" 6 3] assms by simp
  have d: "(0xE0::int) OR (cp div 4096) = 224 + cp div 4096"
    using or_eq_add [of "cp div 4096" 5 7] assms by simp
  show ?thesis
    using a b c d by (simp add: utf8_encode_def and_63 drop_bit_eq_div)
qed

lemma hex_digits_Suc:
  assumes "position p < length_p p"
  shows "hex_digits (Suc n) cp p =
     (if parse_hex_digit (cur p) < 0 then (None, set_error InvalidHexDigit p)
      else hex_digits n (16 * cp + parse_hex_digit (cur p)) (advance 1 p))"
proof (cases "parse_hex_digit (cur p) < 0")
  case True
  with assms show ?thesis by (simp add: Let_def)
next
  case False
  with parse_hex_digit_range [of "cur p"]
  have "0 \<le> parse_hex_digit (cur p)" "parse_hex_digit (cur p) < 16" by auto
  with assms False show ?thesis by (simp add: Let_def shift_hex)
qed

lemma hex_digits_four:
  assumes "position p + 4 \<le> length_p p"
  defines "d \<equiv> \<lambda>i. parse_hex_digit (input p ! (position p + i))"
  shows "hex_digits 4 0 p =
     (if d 0 < 0 then (None, set_error InvalidHexDigit p)
      else if d 1 < 0 then (None, set_error InvalidHexDigit (advance 1 p))
      else if d 2 < 0 then (None, set_error InvalidHexDigit (advance 2 p))
      else if d 3 < 0 then (None, set_error InvalidHexDigit (advance 3 p))
      else (Some (4096 * d 0 + 256 * d 1 + 16 * d 2 + d 3), advance 4 p))"
proof -
  define p1 where "p1 = advance 1 p"
  define p2 where "p2 = advance 1 p1"
  define p3 where "p3 = advance 1 p2"
  have pos: "position p < length_p p" "position p1 < length_p p1" "position p2 < length_p p2"
    "position p3 < length_p p3"
    using assms(1) by (simp_all add: p1_def p2_def p3_def)
  have c: "parse_hex_digit (cur p) = d 0" "parse_hex_digit (cur p1) = d 1"
    "parse_hex_digit (cur p2) = d 2" "parse_hex_digit (cur p3) = d 3"
    by (simp_all add: d_def cur_def p1_def p2_def p3_def eval_nat_numeral)
  have a: "p1 = advance 1 p" "p2 = advance 2 p" "p3 = advance 3 p" "advance 1 p3 = advance 4 p"
    by (simp_all add: p1_def p2_def p3_def advance_def add.commute)
  note st = hex_digits_Suc [OF pos(1), unfolded c, folded p1_def]
    hex_digits_Suc [OF pos(2), unfolded c, folded p2_def]
    hex_digits_Suc [OF pos(3), unfolded c, folded p3_def]
    hex_digits_Suc [OF pos(4), unfolded c]
  have "hex_digits 4 0 p = hex_digits (Suc (Suc (Suc (Suc 0)))) 0 p"
    by (rule hex_digits_4)
  also have "\<dots> =
     (if d 0 < 0 then (None, set_error InvalidHexDigit p)
      else if d 1 < 0 then (None, set_error InvalidHexDigit p1)
      else if d 2 < 0 then (None, set_error InvalidHexDigit p2)
      else if d 3 < 0 then (None, set_error InvalidHexDigit p3)
      else (Some (16 * (16 * (16 * (16 * 0 + d 0) + d 1) + d 2) + d 3), advance 1 p3))"
    by (simp only: st hex_digits.simps(1))
  also have "\<dots> =
     (if d 0 < 0 then (None, set_error InvalidHexDigit p)
      else if d 1 < 0 then (None, set_error InvalidHexDigit (advance 1 p))
      else if d 2 < 0 then (None, set_error InvalidHexDigit (advance 2 p))
      else if d 3 < 0 then (None, set_error InvalidHexDigit (advance 3 p))
      else (Some (4096 * d 0 + 256 * d 1 + 16 * d 2 + d 3), advance 4 p))"
    by (simp add: a)
  finally show ?thesis .
qed


lemma parse_e_acute:
  \<open>json_parse 0 (Some (''"'' @ [BACKSLASH] @ ''u00e9"'')) =
     (Some (JSON_STRING [CHR 0xC3, CHR 0xA9]), [], 0)\<close>
  by (simp add: json_parse_def scan_defs scan_simps)



subsection \<open>The bound of the number buffer\<close>

text \<open>
  C4. The digit loops of \<open>parse_number\<close> refuse to write once \<open>buffer_pos\<close> has reached
  \<open>MAX_NUMBER_SIZE - 1\<close>, but the writes of the sign, the decimal point, the exponent
  letter and the exponent sign are not guarded. On 63 digits followed by \<open>e+1\<close> the
  digits fill the indices 0 to 62, \<open>e\<close> goes to index 63 and \<open>+\<close> to index 64, one past
  the end of \<open>char buffer[64]\<close>: 65 bytes have been written when the scan gives up with
  "Number too large".
\<close>

theorem number_buffer_overrun:
  "number_token (new_parser 0 (replicate 63 (CHR ''1'') @ ''e+1'')) =
     (False, replicate 63 (CHR ''1'') @ ''e+'',
      \<lparr>input = replicate 63 (CHR ''1'') @ ''e+1'', position = 65, length_p = 66, line = 1,
       column = 66, error = Some (ErrorAt NumberTooLarge 1 66), depth = 0, errno = 0\<rparr>) \<and>
   length (replicate 63 (CHR ''1'') @ ''e+'') = MAX_NUMBER_SIZE + 1"
  by code_simp

subsection \<open>Printing and parsing again\<close>

text \<open>
  C1. \<open>json_print_value\<close> writes a string with \<open>"%s"\<close> between two quotes and escapes
  nothing. The literal \<open>"\n"\<close> (backslash, n) parses to the one-byte string holding a
  line feed, which is printed as a quote, a raw line feed and a quote, and that text
  does not parse: "Invalid control character in string". The literal \<open>"\\n"\<close> parses
  to the two bytes backslash and \<open>n\<close>, is printed as \<open>"\n"\<close>, and that text parses to a
  different string, the line feed.
\<close>

theorem unescaped_strings_break_roundtrip:
  \<open>json_parse 0 (Some (''"'' @ [BACKSLASH] @ ''n"'')) = (Some (JSON_STRING [CHR 0x0A]), [], 0) \<and>
   print_value G (JSON_STRING [CHR 0x0A]) 0 False = [DQUOTE, CHR 0x0A, DQUOTE] \<and>
   json_parse 0 (Some [DQUOTE, CHR 0x0A, DQUOTE]) =
     (None, [Some (ErrorAt InvalidControlCharacterInString 1 2)], 0) \<and>
   json_parse 0 (Some (''"'' @ [BACKSLASH, BACKSLASH] @ ''n"'')) =
     (Some (JSON_STRING [BACKSLASH, CHR ''n'']), [], 0) \<and>
   print_value G (JSON_STRING [BACKSLASH, CHR ''n'']) 0 False = ''"'' @ [BACKSLASH] @ ''n"'' \<and>
   json_parse 0 (Some (''"'' @ [BACKSLASH] @ ''n"'')) \<noteq>
   json_parse 0 (Some (''"'' @ [BACKSLASH, BACKSLASH] @ ''n"''))\<close>
proof -
  have a: \<open>json_parse 0 (Some (''"'' @ [BACKSLASH] @ ''n"'')) = (Some (JSON_STRING [CHR 0x0A]), [], 0)\<close>
    by (simp add: json_parse_def scan_defs scan_simps)
  have b: \<open>json_parse 0 (Some [DQUOTE, CHR 0x0A, DQUOTE]) =
     (None, [Some (ErrorAt InvalidControlCharacterInString 1 2)], 0)\<close>
    by (simp add: json_parse_def scan_defs scan_simps)
  have c: \<open>json_parse 0 (Some (''"'' @ [BACKSLASH, BACKSLASH] @ ''n"'')) =
     (Some (JSON_STRING [BACKSLASH, CHR ''n'']), [], 0)\<close>
    by (simp add: json_parse_def scan_defs scan_simps)
  show ?thesis
    using a b c by (simp add: c_str_def)
qed

subsection \<open>The depth counter\<close>

text \<open>
  C2, as stated, fails: on the buffer \<open>[\<close> the array parser consumes the bracket, raises
  the counter from 0 to 1, fails at the end of the input and returns with the counter
  still at 1.
\<close>

theorem depth_left_incremented_on_failure:
  "fst (parse_array (new_parser 0 ''['')) = None \<and>
   depth (new_parser 0 ''['') = 0 \<and>
   depth (snd (parse_array (new_parser 0 ''[''))) = 1"
  by (simp add: scan_defs scan_simps)

lemma parse_array_failed_inside:
  assumes "parse_array p = (None, q)" and "fst (consume_char p (CHR ''[''))"
  shows "depth p < depth q"
proof -
  obtain b p1 where c1: "consume_char p (CHR ''['') = (b, p1)" by force
  with assms(2) have b: "b" by simp
  note m1 = consume_char_moved [OF c1]
  let ?p2 = "p1\<lparr>depth := depth p1 + 1\<rparr>"
  obtain b3 p3 where c3: "peek_char (skip_whitespace ?p2) (CHR '']'') = (b3, p3)" by force
  have m3: "moved ?p2 p3"
    using skip_whitespace_moved [of ?p2] peek_char_moved [OF c3] by (rule moved_trans)
  obtain ro p5 where c5: "array_loop [] p3 = (ro, p5)" by force
  note m5 = array_loop_post [OF c5]
  from assms(1) b c1 c3 c5 m1 m3 m5 show ?thesis
    by (auto simp: parse_array.simps Let_def moved_def post_def
             split: if_splits bool.splits option.splits)
qed

lemma parse_object_failed_inside:
  assumes "parse_object p = (None, q)" and "fst (consume_char p (CHR ''{''))"
  shows "depth p < depth q"
proof -
  obtain b p1 where c1: "consume_char p (CHR ''{'') = (b, p1)" by force
  with assms(2) have b: "b" by simp
  note m1 = consume_char_moved [OF c1]
  let ?p2 = "p1\<lparr>depth := depth p1 + 1\<rparr>"
  obtain b3 p3 where c3: "peek_char (skip_whitespace ?p2) (CHR ''}'') = (b3, p3)" by force
  have m3: "moved ?p2 p3"
    using skip_whitespace_moved [of ?p2] peek_char_moved [OF c3] by (rule moved_trans)
  obtain ro p5 where c5: "object_loop [] p3 = (ro, p5)" by force
  note m5 = object_loop_post [OF c5]
  from assms(1) b c1 c3 c5 m1 m3 m5 show ?thesis
    by (auto simp: parse_object.simps Let_def moved_def post_def
             split: if_splits bool.splits option.splits)
qed

text \<open>
  C2, amended. The counter is decremented on the successful return paths only. After a
  call of the array or object parser that returns a value the counter equals its value on
  entry; after a call that fails it is not below that value, and it is strictly above it
  whenever the opening bracket had been consumed.
\<close>

theorem depth_restored_on_success:
  assumes "parse_array p = (r, q) \<or> parse_object p = (r, q)"
  shows "(r \<noteq> None \<longrightarrow> depth q = depth p) \<and>
         (r = None \<longrightarrow> depth p \<le> depth q) \<and>
         (r = None \<and> parse_array p = (r, q) \<and> fst (consume_char p (CHR ''['')) \<longrightarrow>
            depth p < depth q) \<and>
         (r = None \<and> parse_object p = (r, q) \<and> fst (consume_char p (CHR ''{'')) \<longrightarrow>
            depth p < depth q)"
proof -
  from assms have "post p r q"
    by (auto dest: parse_array_post parse_object_post)
  then show ?thesis
    using parse_array_failed_inside [of p q] parse_object_failed_inside [of p q]
    by (auto simp: post_def)
qed

text \<open>The empty array: parsed, with the counter back at 0.\<close>

theorem depth_restored_on_success_witness:
  "depth (snd (parse_array (new_parser 0 ''[]''))) = depth (new_parser 0 ''[]'') \<and>
   fst (parse_array (new_parser 0 ''[]'')) = Some (JSON_ARRAY [])"
proof -
  have e: "parse_array (new_parser 0 ''[]'') =
     (Some (JSON_ARRAY []), \<lparr>input = ''[]'', position = 2, length_p = 2, line = 1, column = 3,
       error = None, depth = 0, errno = 0\<rparr>)"
    by (simp add: scan_defs scan_simps)
  from depth_restored_on_success [of "new_parser 0 ''[]''", OF disjI1, OF e] e
  show ?thesis by simp
qed

subsection \<open>Ambient state and output\<close>

text \<open>
  C3, as stated, fails: \<open>parse_number\<close> tests \<open>errno == ERANGE\<close> after \<open>strtod\<close> without
  having cleared \<open>errno\<close> before, so the buffer \<open>1\<close> parses to the number 1 when \<open>errno\<close>
  is 0 on entry and fails when a stale \<open>ERANGE\<close> is found there; and a failing
  \<open>json_parse\<close> writes its message to \<open>stderr\<close>.
\<close>

theorem errno_and_stderr_observable:
  "json_parse ERANGE (Some ''1'') = (None, [Some (ErrorAt InvalidNumberFormat 1 2)], ERANGE) \<and>
   json_parse 0 (Some ''1'') = (Some (JSON_NUMBER 1), [], 0)"
  by (simp add: json_parse_def scan_defs scan_simps strtod_1)

end
